theory Spec2Isabelle
  imports Main "HOL-Library.AList"
begin

section \<open>The data model of \<open>django_chatterbot/models.py\<close>\<close>

text \<open>
  The module declares two Django models. A \<open>Statement\<close> row has the primary key that
  Django adds to every model and the two character fields \<open>text\<close> and \<open>extra_data\<close>.
  A \<open>Response\<close> row has its own primary key, the two foreign keys \<open>statement\<close> and
  \<open>response\<close> (each holds the primary key of a \<open>Statement\<close> row) and the counter
  \<open>occurrence\<close>, a \<open>PositiveIntegerField\<close>, hence a natural number.

  Strings are lists of characters; a character stands for the code point with the same
  number, so the model covers the code points up to 255. The methods do not check
  the \<open>max_length\<close> of the character fields, and the model has no such limit.

  \<open>Statement.text\<close> is declared \<open>unique\<close>. The attribute \<open>unique_together\<close> of
  \<open>Response\<close> is written in the class body, not in a \<open>class Meta\<close>, where Django
  reads its options; the model puts no constraint of its own on the response table,
  which changes only through the methods below.
\<close>

datatype error =
    DoesNotExist
  | MultipleObjectsReturned
  | AttributeError
  | ValueError
  | TypeError
  | RecursionError
  | OutsideModel

record Statement =
  pk :: nat
  "text" :: string
  extra_data :: string

record Response =
  row_id :: nat
  statement :: nat
  response :: nat
  occurrence :: nat

text \<open>
  The database holds the two tables, each in the order in which a query without an
  \<open>order_by\<close> returns its rows.
\<close>

record database =
  Statement_objects :: "Statement list"
  Response_objects :: "Response list"

text \<open>
  A method runs on an instance \<open>self\<close> (a Python object, which it may mutate) and on the
  database; both are passed in and returned.
\<close>

type_synonym state = "Statement \<times> database"


section \<open>Python's \<open>json\<close> module\<close>

text \<open>
  \<open>add_extra_data\<close> and \<open>serialize\<close> call \<open>json.loads\<close> and \<open>json.dumps\<close> of
  the Python standard library, with their default arguments. The library is not part
  of the repository; the definitions below follow its decoder and encoder
  (\<open>scanstring\<close>, \<open>scan_once\<close>, \<open>JSONObject\<close>, \<open>JSONArray\<close>,
  \<open>encode_basestring_ascii\<close>) on the values that \<open>json.loads\<close> can return, floats
  apart: \<open>None\<close>, \<open>True\<close> and \<open>False\<close>, integers, strings, lists, and dictionaries
  with string keys. A dictionary is the list of its items in insertion order.
  Where Python would build a float, or a character above code point 255, the
  decoder of the model answers \<open>OutsideModel\<close> and nothing is said about the call.
\<close>

datatype json =
    JNull
  | JBool bool
  | JInt int
  | JStr string
  | JArr "json list"
  | JObj "(string \<times> json) list"

subsection \<open>\<open>json.dumps\<close>\<close>









subsection \<open>\<open>json.loads\<close>\<close>

text \<open>
  The decoder is a recursive descent over the characters. White space (space, tab,
  line feed, carriage return) may stand between any two tokens. Every decoding error
  of Python is a \<open>ValueError\<close> (\<open>JSONDecodeError\<close> is a subclass).
\<close>

definition is_whitespace :: "char \<Rightarrow> bool" where
  "is_whitespace c = (c = CHR '' '' \<or> c = CHR 0x09 \<or> c = CHR 0x0A \<or> c = CHR 0x0D)"

definition skip_whitespace :: "string \<Rightarrow> string" where
  "skip_whitespace s = dropWhile is_whitespace s"

definition is_digit :: "char \<Rightarrow> bool" where
  "is_digit c = (48 \<le> (of_char c :: nat) \<and> (of_char c :: nat) \<le> 57)"

definition digit_value :: "char \<Rightarrow> nat" where
  "digit_value c = of_char c - 48"

definition hex_value :: "char \<Rightarrow> nat option" where
  "hex_value c =
     (let n = (of_char c :: nat)
      in if 48 \<le> n \<and> n \<le> 57 then Some (n - 48)
         else if 97 \<le> n \<and> n \<le> 102 then Some (n - 87)
         else if 65 \<le> n \<and> n \<le> 70 then Some (n - 55)
         else None)"

definition decode_uXXXX :: "char \<Rightarrow> char \<Rightarrow> char \<Rightarrow> char \<Rightarrow> error + char" where
  "decode_uXXXX a b c d =
     (case (hex_value a, hex_value b, hex_value c, hex_value d) of
        (Some x, Some y, Some z, Some w) \<Rightarrow>
          (let uni = ((x * 16 + y) * 16 + z) * 16 + w
           in if uni \<le> 255 then Inr (char_of uni) else Inl OutsideModel)
      | _ \<Rightarrow> Inl ValueError)"

definition BACKSLASH :: "char \<Rightarrow> char option" where
  "BACKSLASH e =
     (if e = CHR 0x22 then Some (CHR 0x22)
      else if e = CHR 0x5C then Some (CHR 0x5C)
      else if e = CHR ''/'' then Some (CHR ''/'')
      else if e = CHR ''b'' then Some (CHR 0x08)
      else if e = CHR ''f'' then Some (CHR 0x0C)
      else if e = CHR ''n'' then Some (CHR 0x0A)
      else if e = CHR ''r'' then Some (CHR 0x0D)
      else if e = CHR ''t'' then Some (CHR 0x09)
      else None)"

text \<open>
  \<open>scanstring\<close> reads a string after its opening quote, up to the closing one, and
  returns it with the rest of the input. A control character is an error
  (\<open>strict\<close> is on).
\<close>

definition prepend :: "char \<Rightarrow> error + string \<times> string \<Rightarrow> error + string \<times> string" where
  "prepend c r = (case r of Inl e \<Rightarrow> Inl e | Inr (x, rest) \<Rightarrow> Inr (c # x, rest))"

fun scanstring :: "string \<Rightarrow> error + string \<times> string" where
  "scanstring [] = Inl ValueError"
| "scanstring (c # cs) =
     (if c = CHR 0x22 then Inr ([], cs)
      else if c = CHR 0x5C then
        (case cs of
           [] \<Rightarrow> Inl ValueError
         | e # cs1 \<Rightarrow>
             (if e = CHR ''u'' then
                (case cs1 of
                   h1 # h2 # h3 # h4 # cs2 \<Rightarrow>
                     (case decode_uXXXX h1 h2 h3 h4 of
                        Inl err \<Rightarrow> Inl err
                      | Inr u \<Rightarrow> prepend u (scanstring cs2))
                 | _ \<Rightarrow> Inl ValueError)
              else
                (case BACKSLASH e of
                   None \<Rightarrow> Inl ValueError
                 | Some u \<Rightarrow> prepend u (scanstring cs1))))
      else if (of_char c :: nat) < 32 then Inl ValueError
      else prepend c (scanstring cs))"

text \<open>
  A number is an optional minus sign and an integer part (a single 0, or a digit
  other than 0 followed by digits), then an optional fraction (a point and digits)
  and an optional exponent. With a fraction or an exponent it is a float, otherwise
  an integer.
\<close>

definition int_of_digits :: "string \<Rightarrow> nat" where
  "int_of_digits ds = foldl (\<lambda>a c. 10 * a + digit_value c) 0 ds"

definition has_frac :: "string \<Rightarrow> bool" where
  "has_frac s = (case s of c # d # _ \<Rightarrow> c = CHR ''.'' \<and> is_digit d | _ \<Rightarrow> False)"

definition has_exp :: "string \<Rightarrow> bool" where
  "has_exp s =
     (case s of
        e # s1 \<Rightarrow>
          (e = CHR ''e'' \<or> e = CHR ''E'') \<and>
          (case s1 of
             d # s2 \<Rightarrow>
               is_digit d \<or>
               ((d = CHR ''+'' \<or> d = CHR ''-'') \<and> (case s2 of d' # _ \<Rightarrow> is_digit d' | [] \<Rightarrow> False))
           | [] \<Rightarrow> False)
      | [] \<Rightarrow> False)"

definition match_number :: "string \<Rightarrow> (error + json \<times> string) option" where
  "match_number s =
     (let neg = (case s of c # _ \<Rightarrow> c = CHR ''-'' | [] \<Rightarrow> False);
          s1 = (if neg then tl s else s)
      in case s1 of
           [] \<Rightarrow> None
         | d # t \<Rightarrow>
             if \<not> is_digit d then None
             else
               (let ds = (if d = CHR ''0'' then [d] else d # takeWhile is_digit t);
                    rest = drop (length ds) s1;
                    after_frac = (if has_frac rest then dropWhile is_digit (tl rest) else rest)
                in if has_frac rest \<or> has_exp after_frac then Some (Inl OutsideModel)
                   else Some (Inr (JInt (if neg then - int (int_of_digits ds)
                                         else int (int_of_digits ds)), rest))))"

text \<open>
  \<open>dict(pairs)\<close>: a key that comes twice keeps its first place and its last value.
\<close>

definition dict :: "(string \<times> json) list \<Rightarrow> (string \<times> json) list" where
  "dict pairs = foldl (\<lambda>d kv. AList.update (fst kv) (snd kv) d) [] pairs"

text \<open>
  \<open>scan_once\<close> decodes one value at the start of the input; \<open>JSONArray\<close> and
  \<open>JSONObject\<close> are the loops over the items of a list and of a dictionary, entered
  at the first item. The first argument bounds the number of calls, so that the
  recursion is well-founded; a call that exhausts it answers \<open>RecursionError\<close>.
  \<open>json_loads\<close> passes a bound that is never exhausted (lemma
  \<open>json_loads_not_RecursionError\<close> below); the depth at which the Python interpreter
  gives up is not modelled.
\<close>

fun scan_once :: "nat \<Rightarrow> string \<Rightarrow> error + json \<times> string"
and JSONArray :: "nat \<Rightarrow> json list \<Rightarrow> string \<Rightarrow> error + json \<times> string"
and JSONObject :: "nat \<Rightarrow> (string \<times> json) list \<Rightarrow> string \<Rightarrow> error + json \<times> string" where
  "scan_once 0 s = Inl RecursionError"
| "scan_once (Suc n) [] = Inl ValueError"
| "scan_once (Suc n) (c # cs) =
     (if c = CHR 0x22 then
        (case scanstring cs of Inl e \<Rightarrow> Inl e | Inr (x, rest) \<Rightarrow> Inr (JStr x, rest))
      else if c = CHR ''{'' then
        (case skip_whitespace cs of
           [] \<Rightarrow> Inl ValueError
         | d # rest \<Rightarrow>
             if d = CHR ''}'' then Inr (JObj [], rest) else JSONObject n [] (d # rest))
      else if c = CHR ''['' then
        (case skip_whitespace cs of
           [] \<Rightarrow> Inl ValueError
         | d # rest \<Rightarrow>
             if d = CHR '']'' then Inr (JArr [], rest) else JSONArray n [] (d # rest))
      else if take 4 (c # cs) = ''null'' then Inr (JNull, drop 4 (c # cs))
      else if take 4 (c # cs) = ''true'' then Inr (JBool True, drop 4 (c # cs))
      else if take 5 (c # cs) = ''false'' then Inr (JBool False, drop 5 (c # cs))
      else
        (case match_number (c # cs) of
           Some r \<Rightarrow> r
         | None \<Rightarrow>
             if take 3 (c # cs) = ''NaN'' \<or> take 8 (c # cs) = ''Infinity''
                \<or> take 9 (c # cs) = ''-Infinity''
             then Inl OutsideModel
             else Inl ValueError))"
| "JSONArray 0 values s = Inl RecursionError"
| "JSONArray (Suc n) values s =
     (case scan_once n s of
        Inl e \<Rightarrow> Inl e
      | Inr (v, s1) \<Rightarrow>
          (case skip_whitespace s1 of
             [] \<Rightarrow> Inl ValueError
           | d # s2 \<Rightarrow>
               if d = CHR '']'' then Inr (JArr (values @ [v]), s2)
               else if d = CHR '','' then JSONArray n (values @ [v]) (skip_whitespace s2)
               else Inl ValueError))"
| "JSONObject 0 pairs s = Inl RecursionError"
| "JSONObject (Suc n) pairs s =
     (case s of
        [] \<Rightarrow> Inl ValueError
      | q # s1 \<Rightarrow>
          if q \<noteq> CHR 0x22 then Inl ValueError
          else
            (case scanstring s1 of
               Inl e \<Rightarrow> Inl e
             | Inr (key, s2) \<Rightarrow>
                 (case skip_whitespace s2 of
                    [] \<Rightarrow> Inl ValueError
                  | c # s3 \<Rightarrow>
                      if c \<noteq> CHR '':'' then Inl ValueError
                      else
                        (case scan_once n (skip_whitespace s3) of
                           Inl e \<Rightarrow> Inl e
                         | Inr (v, s4) \<Rightarrow>
                             (case skip_whitespace s4 of
                                [] \<Rightarrow> Inl ValueError
                              | d # s5 \<Rightarrow>
                                  if d = CHR ''}'' then Inr (JObj (dict (pairs @ [(key, v)])), s5)
                                  else if d = CHR '','' then
                                    JSONObject n (pairs @ [(key, v)]) (skip_whitespace s5)
                                  else Inl ValueError)))))"

text \<open>
  \<open>json.loads\<close> skips leading white space, decodes one value and accepts only white
  space after it.
\<close>

definition json_loads :: "string \<Rightarrow> error + json" where
  "json_loads s =
     (case scan_once (2 * length s + 2) (skip_whitespace s) of
        Inl e \<Rightarrow> Inl e
      | Inr (obj, rest) \<Rightarrow> if skip_whitespace rest = [] then Inr obj else Inl ValueError)"

section \<open>The queries and writes of the object-relational mapper\<close>

text \<open>
  \<open>self.in_response_to\<close> is the reverse side of the foreign key \<open>Response.statement\<close>
  (its \<open>related_name\<close>): the rows of \<open>Response\<close> whose \<open>statement\<close> is \<open>self\<close>.
\<close>

definition in_response_to :: "Statement \<Rightarrow> database \<Rightarrow> Response list" where
  "in_response_to self db = filter (\<lambda>r. statement r = pk self) (Response_objects db)"

text \<open>
  The lookup \<open>response__text\<close> follows the foreign key \<open>response\<close> to the \<open>Statement\<close>
  table and reads the column \<open>text\<close> of the row found there.
\<close>

definition response__text :: "database \<Rightarrow> Response \<Rightarrow> string option" where
  "response__text db r =
     map_option text (find (\<lambda>s. pk s = response r) (Statement_objects db))"

definition filter_response__text :: "string \<Rightarrow> database \<Rightarrow> Response list \<Rightarrow> Response list" where
  "filter_response__text t db qs = filter (\<lambda>r. response__text db r = Some t) qs"

definition exists_rows :: "Response list \<Rightarrow> bool" where
  "exists_rows qs = (qs \<noteq> [])"

text \<open>\<open>QuerySet.get\<close> returns the only row of the query and raises otherwise.\<close>

fun get :: "Response list \<Rightarrow> error + Response" where
  "get [] = Inl DoesNotExist"
| "get [r] = Inr r"
| "get (r # r' # rs) = Inl MultipleObjectsReturned"

text \<open>A new row gets a primary key above every key of the table.\<close>

definition new_row_id :: "Response list \<Rightarrow> nat" where
  "new_row_id tbl = Suc (fold max (map row_id tbl) 0)"

text \<open>
  \<open>get_or_create(statement=self, response=statement)\<close> on the related manager: the
  row of that pair when there is exactly one; a new row, with the default
  \<open>occurrence\<close> of 1, when there is none; \<open>MultipleObjectsReturned\<close> otherwise.
\<close>

definition get_or_create ::
  "Statement \<Rightarrow> Statement \<Rightarrow> database \<Rightarrow> (error + Response \<times> bool) \<times> database" where
  "get_or_create self stmt db =
     (case get (filter (\<lambda>r. statement r = pk self \<and> response r = pk stmt)
                  (in_response_to self db)) of
        Inr r \<Rightarrow> (Inr (r, False), db)
      | Inl DoesNotExist \<Rightarrow>
          (let r = \<lparr>row_id = new_row_id (Response_objects db), statement = pk self,
                    response = pk stmt, occurrence = 1\<rparr>
           in (Inr (r, True), db\<lparr>Response_objects := Response_objects db @ [r]\<rparr>))
      | Inl e \<Rightarrow> (Inl e, db))"

text \<open>\<open>save\<close> writes an instance over the row with its primary key, or adds it.\<close>

definition save :: "Response \<Rightarrow> database \<Rightarrow> database" where
  "save r db =
     (if row_id r \<in> row_id ` set (Response_objects db)
      then db\<lparr>Response_objects :=
                map (\<lambda>x. if row_id x = row_id r then r else x) (Response_objects db)\<rparr>
      else db\<lparr>Response_objects := Response_objects db @ [r]\<rparr>)"

section \<open>The methods of \<open>Statement\<close>\<close>

subsection \<open>\<open>__str__\<close>\<close>

text \<open>
  \<open>str.strip\<close> removes the white space at both ends; among the code points up to 255
  Python counts as white space 9 to 13, 28 to 32, 133 and 160.
\<close>

definition isspace :: "char \<Rightarrow> bool" where
  "isspace c =
     (let n = (of_char c :: nat)
      in (9 \<le> n \<and> n \<le> 13) \<or> (28 \<le> n \<and> n \<le> 32) \<or> n = 133 \<or> n = 160)"

definition strip :: "string \<Rightarrow> string" where
  "strip s = rev (dropWhile isspace (rev (dropWhile isspace s)))"

definition Statement_str :: "Statement \<Rightarrow> string" where
  "Statement_str self =
     (if length (strip (text self)) > 60 then take 57 (text self) @ ''...''
      else if length (strip (text self)) > 0 then text self
      else ''<empty>'')"

subsection \<open>\<open>add_extra_data\<close>\<close>



subsection \<open>\<open>add_response\<close>, \<open>remove_response\<close>, \<open>get_response_count\<close>\<close>

definition add_response :: "Statement \<Rightarrow> state \<Rightarrow> (error + unit) \<times> state" where
  "add_response stmt \<sigma> =
     (case \<sigma> of (self, db) \<Rightarrow>
        (case get_or_create self stmt db of
           (Inl e, db') \<Rightarrow> (Inl e, (self, db'))
         | (Inr (resp, created), db') \<Rightarrow>
             (if created
              then (let resp' = resp\<lparr>occurrence := occurrence resp + 1\<rparr>
                    in (Inr (), (self, save resp' db')))
              else (Inr (), (self, db')))))"

definition remove_response :: "string \<Rightarrow> state \<Rightarrow> bool \<times> state" where
  "remove_response response_text \<sigma> =
     (case \<sigma> of (self, db) \<Rightarrow>
        (let is_deleted = False;
             resp = filter_response__text response_text db (in_response_to self db);
             is_deleted = (if exists_rows resp then True else is_deleted)
         in (is_deleted, (self, db))))"

definition get_response_count :: "Statement \<Rightarrow> state \<Rightarrow> (error + nat) \<times> state" where
  "get_response_count stmt \<sigma> =
     (case \<sigma> of (self, db) \<Rightarrow>
        (case get (filter_response__text (text stmt) db (in_response_to self db)) of
           Inr resp \<Rightarrow> (Inr (occurrence resp), (self, db))
         | Inl DoesNotExist \<Rightarrow> (Inr 0, (self, db))
         | Inl e \<Rightarrow> (Inl e, (self, db))))"

subsection \<open>\<open>serialize\<close>\<close>

text \<open>
  \<open>serialize\<close> calls \<open>response.serialize()\<close> on every row of \<open>self.in_response_to.all()\<close>.
  The class \<open>Response\<close> defines \<open>__str__\<close> only, and Django's \<open>Model\<close> has no method of
  that name, so the attribute lookup raises \<open>AttributeError\<close>.
\<close>

definition Response_serialize :: "Response \<Rightarrow> error + json" where
  "Response_serialize resp = Inl AttributeError"

text \<open>The \<open>for\<close> loop, with the list \<open>data['in_response_to']\<close> built so far.\<close>

fun serialize_responses :: "Response list \<Rightarrow> json list \<Rightarrow> error + json list" where
  "serialize_responses [] entries = Inr entries"
| "serialize_responses (resp # rest) entries =
     (case Response_serialize resp of
        Inl e \<Rightarrow> Inl e
      | Inr entry \<Rightarrow> serialize_responses rest (entries @ [entry]))"

text \<open>The dictionary \<open>data\<close> is the list of its items, in the order of the assignments.\<close>

definition serialize :: "state \<Rightarrow> (error + (string \<times> json) list) \<times> state" where
  "serialize \<sigma> =
     (case \<sigma> of (self, db) \<Rightarrow>
        (let self = (if extra_data self = [] then self\<lparr>extra_data := ''{}''\<rparr> else self)
         in case json_loads (extra_data self) of
              Inl e \<Rightarrow> (Inl e, (self, db))
            | Inr parsed \<Rightarrow>
                (let data = [(''text'', JStr (text self)), (''in_response_to'', JArr []),
                             (''extra_data'', parsed)]
                 in case serialize_responses (in_response_to self db) [] of
                      Inl e \<Rightarrow> (Inl e, (self, db))
                    | Inr entries \<Rightarrow>
                        (Inr (AList.update ''in_response_to'' (JArr entries) data),
                         (self, db)))))"

section \<open>The states the methods reach\<close>



section \<open>Auxiliary notions\<close>





text \<open>The edges of the table from one statement to another, by primary key.\<close>

definition edges :: "nat \<Rightarrow> nat \<Rightarrow> database \<Rightarrow> Response list" where
  "edges s r db = filter (\<lambda>e. statement e = s \<and> response e = r) (Response_objects db)"

text \<open>
  Two statements and the two databases used as concrete inputs: one with no
  response, one after a single call of \<open>add_response\<close>.
\<close>

definition greeting :: Statement where
  "greeting = \<lparr>pk = 1, text = ''Hello'', extra_data = ''''\<rparr>"

definition reply :: Statement where
  "reply = \<lparr>pk = 2, text = ''Hi'', extra_data = ''''\<rparr>"

definition no_responses :: database where
  "no_responses = \<lparr>Statement_objects = [greeting, reply], Response_objects = []\<rparr>"

definition one_response :: database where
  "one_response = snd (snd (add_response reply (greeting, no_responses)))"

section \<open>Encoding and decoding are inverse\<close>







































































section \<open>The decoder never exhausts its bound\<close>

lemma skip_whitespace_length: "length (skip_whitespace s) \<le> length s"
  by (simp add: skip_whitespace_def length_dropWhile_le)

lemma prepend_Inr:
  "prepend c r = Inr (x, rest) \<Longrightarrow> \<exists>y. r = Inr (y, rest)"
  by (auto simp: prepend_def split: sum.splits)

lemma prepend_not_RecursionError:
  "r \<noteq> Inl RecursionError \<Longrightarrow> prepend c r \<noteq> Inl RecursionError"
  by (auto simp: prepend_def split: sum.splits)

lemma decode_not_RecursionError: "decode_uXXXX a b c d \<noteq> Inl RecursionError"
  by (auto simp: decode_uXXXX_def Let_def split: option.splits)

lemma scanstring_shorter: "scanstring s = Inr (x, rest) \<Longrightarrow> length rest < length s"
proof (induction "length s" arbitrary: s x rule: less_induct)
  case less
  show ?case
  proof (cases s)
    case Nil
    with less.prems show ?thesis by simp
  next
    case (Cons c cs)
    note s = Cons
    show ?thesis
    proof (cases "c = CHR 0x22")
      case True
      with less.prems s show ?thesis by simp
    next
      case nq: False
      show ?thesis
      proof (cases "c = CHR 0x5C")
        case False
        with nq less.prems s obtain y where y: "scanstring cs = Inr (y, rest)"
          by (auto split: if_splits dest: prepend_Inr)
        have "length cs < length s" using s by simp
        from less.hyps [OF this y] s show ?thesis by simp
      next
        case bs: True
        from less.prems nq bs s obtain e cs1 where cs: "cs = e # cs1"
          by (cases cs) auto
        show ?thesis
        proof (cases "e = CHR ''u''")
          case True
          from less.prems nq bs s cs True obtain h1 h2 h3 h4 cs2 y
            where h: "cs1 = h1 # h2 # h3 # h4 # cs2" "scanstring cs2 = Inr (y, rest)"
            by (auto split: list.splits sum.splits dest: prepend_Inr)
          have "length cs2 < length s" using s cs h(1) by simp
          from less.hyps [OF this h(2)] s cs h(1) show ?thesis by simp
        next
          case False
          from less.prems nq bs s cs False obtain y
            where h: "scanstring cs1 = Inr (y, rest)"
            by (auto split: option.splits dest: prepend_Inr)
          have "length cs1 < length s" using s cs by simp
          from less.hyps [OF this h] s cs show ?thesis by simp
        qed
      qed
    qed
  qed
qed

lemma scanstring_not_RecursionError: "scanstring s \<noteq> Inl RecursionError"
proof (induction "length s" arbitrary: s rule: less_induct)
  case less
  show ?case
  proof (cases s)
    case Nil
    then show ?thesis by simp
  next
    case (Cons c cs)
    note s = Cons
    have ih: "prepend u (scanstring t) \<noteq> Inl RecursionError" if "length t < length s" for u t
      using less.hyps [OF that] by (rule prepend_not_RecursionError)
    show ?thesis
    proof (cases "c = CHR 0x22")
      case True
      with s show ?thesis by simp
    next
      case nq: False
      show ?thesis
      proof (cases "c = CHR 0x5C")
        case False
        with nq s ih [of cs c] show ?thesis by simp
      next
        case bs: True
        show ?thesis
        proof (cases cs)
          case Nil
          with nq bs s show ?thesis by simp
        next
          case (Cons e cs1)
          note cs = Cons
          show ?thesis
          proof (cases "e = CHR ''u''")
            case False
            with nq bs s cs ih [of cs1] show ?thesis
              by (simp split: option.splits)
          next
            case True
            show ?thesis
            proof (cases "\<exists>h1 h2 h3 h4 cs2. cs1 = h1 # h2 # h3 # h4 # cs2")
              case False
              with nq bs s cs True show ?thesis by (auto split: list.splits)
            next
              case h: True
              then obtain h1 h2 h3 h4 cs2 where cs1: "cs1 = h1 # h2 # h3 # h4 # cs2" by blast
              have "length cs2 < length s" using s cs cs1 by simp
              from ih [OF this] nq bs s cs True cs1 decode_not_RecursionError [of h1 h2 h3 h4]
              show ?thesis by (auto split: sum.splits)
            qed
          qed
        qed
      qed
    qed
  qed
qed

lemma match_number_shorter:
  "match_number s = Some (Inr (v, rest)) \<Longrightarrow> length rest < length s"
  by (auto simp: match_number_def Let_def split: list.splits if_splits)

lemma match_number_not_RecursionError: "match_number s \<noteq> Some (Inl RecursionError)"
  by (auto simp: match_number_def Let_def split: list.splits if_splits)


text \<open>
  The cases of one call of each decoding function, then two facts by induction on the
  bound: a call that succeeds consumes input, and a bound above twice the length of
  the input is not exhausted.
\<close>

lemma scan_once_Suc_cases:
  assumes "scan_once (Suc n) s = r"
  obtains (empty) "s = []" "r = Inl ValueError"
    | (str) cs where "s = CHR 0x22 # cs"
        "r = (case scanstring cs of Inl e \<Rightarrow> Inl e | Inr (x, rest) \<Rightarrow> Inr (JStr x, rest))"
    | (obj_error) cs where "s = CHR ''{'' # cs" "skip_whitespace cs = []" "r = Inl ValueError"
    | (obj_empty) cs rest where "s = CHR ''{'' # cs" "skip_whitespace cs = CHR ''}'' # rest"
        "r = Inr (JObj [], rest)"
    | (obj) cs t where "s = CHR ''{'' # cs" "skip_whitespace cs = t" "t \<noteq> []"
        "r = JSONObject n [] t"
    | (arr_error) cs where "s = CHR ''['' # cs" "skip_whitespace cs = []" "r = Inl ValueError"
    | (arr_empty) cs rest where "s = CHR ''['' # cs" "skip_whitespace cs = CHR '']'' # rest"
        "r = Inr (JArr [], rest)"
    | (arr) cs t where "s = CHR ''['' # cs" "skip_whitespace cs = t" "t \<noteq> []"
        "r = JSONArray n [] t"
    | (literal) v k where "s \<noteq> []" "r = Inr (v, drop k s)" "0 < k"
    | (number) x where "match_number s = Some x" "r = x"
    | (other) e where "r = Inl e" "e \<noteq> RecursionError"
proof (cases s)
  case Nil
  with assms empty show ?thesis by simp
next
  case (Cons c cs)
  consider (q) "c = CHR 0x22" | (b) "c = CHR ''{''" | (k) "c = CHR ''[''"
    | (o) "c \<noteq> CHR 0x22" "c \<noteq> CHR ''{''" "c \<noteq> CHR ''[''"
    by blast
  then show ?thesis
  proof cases
    case q
    with assms Cons str show ?thesis by simp
  next
    case b
    show ?thesis
    proof (cases "skip_whitespace cs")
      case Nil
      with assms Cons b obj_error show ?thesis by simp
    next
      case (Cons d rest)
      note sk = Cons
      show ?thesis
      proof (cases "d = CHR ''}''")
        case True
        with assms \<open>s = c # cs\<close> b sk obj_empty show ?thesis by simp
      next
        case False
        with assms \<open>s = c # cs\<close> b sk obj [of cs "d # rest"] show ?thesis by simp
      qed
    qed
  next
    case k
    show ?thesis
    proof (cases "skip_whitespace cs")
      case Nil
      with assms Cons k arr_error show ?thesis by simp
    next
      case (Cons d rest)
      note sk = Cons
      show ?thesis
      proof (cases "d = CHR '']''")
        case True
        with assms \<open>s = c # cs\<close> k sk arr_empty show ?thesis by simp
      next
        case False
        with assms \<open>s = c # cs\<close> k sk arr [of cs "d # rest"] show ?thesis by simp
      qed
    qed
  next
    case o
    let ?s = "c # cs"
    have a: "(if take 4 ?s = ''null'' then Inr (JNull, drop 4 ?s)
      else if take 4 ?s = ''true'' then Inr (JBool True, drop 4 ?s)
      else if take 5 ?s = ''false'' then Inr (JBool False, drop 5 ?s)
      else
        (case match_number ?s of
           Some r \<Rightarrow> r
         | None \<Rightarrow>
             if take 3 ?s = ''NaN'' \<or> take 8 ?s = ''Infinity'' \<or> take 9 ?s = ''-Infinity''
             then Inl OutsideModel
             else Inl ValueError)) = r"
      using assms Cons o by (simp only: scan_once.simps if_False)
    show ?thesis
    proof (cases "take 4 ?s = ''null''")
      case True
      have "r = Inr (JNull, drop 4 ?s)" using a unfolding if_P [OF True] by (rule sym)
      then have "r = Inr (JNull, drop 4 s)" using Cons by simp
      with literal [of JNull 4] Cons show ?thesis by simp
    next
      case n1: False
      show ?thesis
      proof (cases "take 4 ?s = ''true''")
        case True
        have "r = Inr (JBool True, drop 4 ?s)"
          using a unfolding if_not_P [OF n1] if_P [OF True] by (rule sym)
        then have "r = Inr (JBool True, drop 4 s)" using Cons by simp
        with literal [of "JBool True" 4] Cons show ?thesis by simp
      next
        case n2: False
        show ?thesis
        proof (cases "take 5 ?s = ''false''")
          case True
          have "r = Inr (JBool False, drop 5 ?s)"
            using a unfolding if_not_P [OF n1] if_not_P [OF n2] if_P [OF True] by (rule sym)
          then have "r = Inr (JBool False, drop 5 s)" using Cons by simp
          with literal [of "JBool False" 5] Cons show ?thesis by simp
        next
          case n3: False
          have b: "(case match_number ?s of
             Some r \<Rightarrow> r
           | None \<Rightarrow>
               if take 3 ?s = ''NaN'' \<or> take 8 ?s = ''Infinity'' \<or> take 9 ?s = ''-Infinity''
               then Inl OutsideModel
               else Inl ValueError) = r"
            using a unfolding if_not_P [OF n1] if_not_P [OF n2] if_not_P [OF n3] .
          show ?thesis
          proof (cases "match_number ?s")
            case None
            have c: "(if take 3 ?s = ''NaN'' \<or> take 8 ?s = ''Infinity''
                  \<or> take 9 ?s = ''-Infinity''
               then Inl OutsideModel else Inl ValueError) = r"
              using b unfolding None option.case .
            show ?thesis
            proof (cases "take 3 ?s = ''NaN'' \<or> take 8 ?s = ''Infinity''
                  \<or> take 9 ?s = ''-Infinity''")
              case True
              have "r = Inl OutsideModel" using c unfolding if_P [OF True] by (rule sym)
              then show ?thesis by (rule other) simp
            next
              case False
              have "r = Inl ValueError" using c unfolding if_not_P [OF False] by (rule sym)
              then show ?thesis by (rule other) simp
            qed
          next
            case (Some x)
            have "x = r" using b unfolding Some option.case .
            then have rx: "r = x" by (rule sym)
            have "match_number s = Some x" unfolding Cons by (rule Some)
            then show ?thesis using rx by (rule number)
          qed
        qed
      qed
    qed
  qed
qed


lemma JSONArray_Suc_cases:
  assumes "JSONArray (Suc n) acc s = r"
  obtains (error) e where "scan_once n s = Inl e" "r = Inl e"
    | (bad) "r = Inl ValueError"
    | (last) v s1 rest where "scan_once n s = Inr (v, s1)" "skip_whitespace s1 = CHR '']'' # rest"
        "r = Inr (JArr (acc @ [v]), rest)"
    | (more) v s1 s2 where "scan_once n s = Inr (v, s1)" "skip_whitespace s1 = CHR '','' # s2"
        "r = JSONArray n (acc @ [v]) (skip_whitespace s2)"
proof (cases "scan_once n s")
  case (Inl e)
  with assms have "r = Inl e" by auto
  with Inl show ?thesis by (rule error)
next
  case (Inr p)
  obtain v s1 where p: "p = (v, s1)" by (cases p)
  with Inr have v: "scan_once n s = Inr (v, s1)" by simp
  show ?thesis
  proof (cases "skip_whitespace s1")
    case Nil
    with assms v have "r = Inl ValueError" by auto
    then show ?thesis by (rule bad)
  next
    case (Cons d s2)
    consider "d = CHR '']''" | "d \<noteq> CHR '']''" "d = CHR '',''" | "d \<noteq> CHR '']''" "d \<noteq> CHR '',''"
      by blast
    then show ?thesis
    proof cases
      case 1
      with assms v Cons have "r = Inr (JArr (acc @ [v]), s2)" by auto
      moreover have "skip_whitespace s1 = CHR '']'' # s2" using Cons 1 by simp
      ultimately show ?thesis using v by (intro last)
    next
      case 2
      with assms v Cons have "r = JSONArray n (acc @ [v]) (skip_whitespace s2)" by auto
      moreover have "skip_whitespace s1 = CHR '','' # s2" using Cons 2 by simp
      ultimately show ?thesis using v by (intro more)
    next
      case 3
      with assms v Cons have "r = Inl ValueError" by auto
      then show ?thesis by (rule bad)
    qed
  qed
qed

lemma JSONObject_Suc_quote:
  assumes "scanstring s1 = Inr (key, s2)" and "skip_whitespace s2 = CHR '':'' # s3"
  shows "JSONObject (Suc n) pairs (CHR 0x22 # s1) =
     (case scan_once n (skip_whitespace s3) of
        Inl e \<Rightarrow> Inl e
      | Inr (v, s4) \<Rightarrow>
          (case skip_whitespace s4 of
             [] \<Rightarrow> Inl ValueError
           | d # s5 \<Rightarrow>
               if d = CHR ''}'' then Inr (JObj (dict (pairs @ [(key, v)])), s5)
               else if d = CHR '','' then JSONObject n (pairs @ [(key, v)]) (skip_whitespace s5)
               else Inl ValueError))"
  using assms by simp

lemma JSONObject_Suc_cases:
  assumes "JSONObject (Suc n) pairs s = r"
  obtains (bad) e where "r = Inl e" "e \<noteq> RecursionError"
    | (error) key s1 s2 s3 e where "s = CHR 0x22 # s1" "scanstring s1 = Inr (key, s2)"
        "skip_whitespace s2 = CHR '':'' # s3" "scan_once n (skip_whitespace s3) = Inl e" "r = Inl e"
    | (last) key s1 s2 s3 v s4 rest where "s = CHR 0x22 # s1" "scanstring s1 = Inr (key, s2)"
        "skip_whitespace s2 = CHR '':'' # s3" "scan_once n (skip_whitespace s3) = Inr (v, s4)"
        "skip_whitespace s4 = CHR ''}'' # rest" "r = Inr (JObj (dict (pairs @ [(key, v)])), rest)"
    | (more) key s1 s2 s3 v s4 s5 where "s = CHR 0x22 # s1" "scanstring s1 = Inr (key, s2)"
        "skip_whitespace s2 = CHR '':'' # s3" "scan_once n (skip_whitespace s3) = Inr (v, s4)"
        "skip_whitespace s4 = CHR '','' # s5"
        "r = JSONObject n (pairs @ [(key, v)]) (skip_whitespace s5)"
proof (cases s)
  case Nil
  with assms have "r = Inl ValueError" by auto
  then show ?thesis by (rule bad) simp
next
  case (Cons q s1)
  note s = Cons
  show ?thesis
  proof (cases "q = CHR 0x22")
    case False
    with assms s have "r = Inl ValueError" by auto
    then show ?thesis by (rule bad) simp
  next
    case q: True
    with s have sq: "s = CHR 0x22 # s1" by simp
    show ?thesis
    proof (cases "scanstring s1")
      case (Inl e)
      with assms sq have "r = Inl e" by auto
      moreover have "e \<noteq> RecursionError" using Inl scanstring_not_RecursionError [of s1] by auto
      ultimately show ?thesis by (rule bad)
    next
      case (Inr p)
      obtain key s2 where p: "p = (key, s2)" by (cases p)
      with Inr have k: "scanstring s1 = Inr (key, s2)" by simp
      show ?thesis
      proof (cases "skip_whitespace s2")
        case Nil
        with assms sq k have "r = Inl ValueError" by auto
        then show ?thesis by (rule bad) simp
      next
        case (Cons c s3)
        note s2 = Cons
        show ?thesis
        proof (cases "c = CHR '':''")
          case False
          with assms sq k s2 have "r = Inl ValueError" by auto
          then show ?thesis by (rule bad) simp
        next
          case True
          with s2 have c: "skip_whitespace s2 = CHR '':'' # s3" by simp
          note eq = assms [unfolded sq JSONObject_Suc_quote [OF k c]]
          show ?thesis
          proof (cases "scan_once n (skip_whitespace s3)")
            case (Inl e)
            with eq have "r = Inl e" by auto
            with sq k c Inl show ?thesis by (intro error)
          next
            case (Inr p')
            obtain x s4 where p': "p' = (x, s4)" by (cases p')
            with Inr have v: "scan_once n (skip_whitespace s3) = Inr (x, s4)" by simp
            show ?thesis
            proof (cases "skip_whitespace s4")
              case Nil
              with eq v have "r = Inl ValueError" by auto
              then show ?thesis by (rule bad) simp
            next
              case (Cons d s5)
              consider "d = CHR ''}''" | "d \<noteq> CHR ''}''" "d = CHR '',''"
                | "d \<noteq> CHR ''}''" "d \<noteq> CHR '',''"
                by blast
              then show ?thesis
              proof cases
                case 1
                with eq v Cons have "r = Inr (JObj (dict (pairs @ [(key, x)])), s5)" by auto
                moreover have "skip_whitespace s4 = CHR ''}'' # s5" using Cons 1 by simp
                ultimately show ?thesis using sq k c v by (intro last)
              next
                case 2
                with eq v Cons
                have "r = JSONObject n (pairs @ [(key, x)]) (skip_whitespace s5)" by auto
                moreover have "skip_whitespace s4 = CHR '','' # s5" using Cons 2 by simp
                ultimately show ?thesis using sq k c v by (intro more)
              next
                case 3
                with eq v Cons have "r = Inl ValueError" by auto
                then show ?thesis by (rule bad) simp
              qed
            qed
          qed
        qed
      qed
    qed
  qed
qed

lemma Cons_shorter: "skip_whitespace s = c # t \<Longrightarrow> length t < length s"
  using skip_whitespace_length [of s] by simp

lemma consumes_aux:
  "(\<forall>s v rest. scan_once n s = Inr (v, rest) \<longrightarrow> length rest < length s) \<and>
   (\<forall>acc s v rest. JSONArray n acc s = Inr (v, rest) \<longrightarrow> length rest < length s) \<and>
   (\<forall>pairs s v rest. JSONObject n pairs s = Inr (v, rest) \<longrightarrow> length rest < length s)"
proof (induction n)
  case 0
  show ?case by simp
next
  case (Suc n)
  then have ih1: "\<And>s v rest. scan_once n s = Inr (v, rest) \<Longrightarrow> length rest < length s"
    and ih2: "\<And>acc s v rest. JSONArray n acc s = Inr (v, rest) \<Longrightarrow> length rest < length s"
    and ih3: "\<And>pairs s v rest. JSONObject n pairs s = Inr (v, rest) \<Longrightarrow> length rest < length s"
    by blast+
  have p1: "length rest < length s" if a: "scan_once (Suc n) s = Inr (v, rest)" for s v rest
    using a
  proof (cases rule: scan_once_Suc_cases)
    case (str cs)
    then obtain x where "scanstring cs = Inr (x, rest)" by (auto split: sum.splits)
    from scanstring_shorter [OF this] str(1) show ?thesis by simp
  next
    case (obj_empty cs r)
    with Cons_shorter [of cs] show ?thesis by simp
  next
    case (obj cs t)
    from ih3 [OF obj(4) [symmetric]] skip_whitespace_length [of cs] obj(1,2) show ?thesis by simp
  next
    case (arr_empty cs r)
    with Cons_shorter [of cs] show ?thesis by simp
  next
    case (arr cs t)
    from ih2 [OF arr(4) [symmetric]] skip_whitespace_length [of cs] arr(1,2) show ?thesis by simp
  next
    case (literal v' k)
    then show ?thesis by (cases s) auto
  next
    case (number x)
    then show ?thesis using match_number_shorter [of s v rest] by simp
  qed simp_all
  have p2: "length rest < length s" if a: "JSONArray (Suc n) acc s = Inr (v, rest)"
    for acc s v rest
    using a
  proof (cases rule: JSONArray_Suc_cases)
    case (last x s1 r)
    from ih1 [OF last(1)] Cons_shorter [OF last(2)] last(3) show ?thesis by simp
  next
    case (more x s1 s2)
    from ih2 [OF more(3) [symmetric]] skip_whitespace_length [of s2]
      ih1 [OF more(1)] Cons_shorter [OF more(2)]
    show ?thesis by simp
  qed simp_all
  have p3: "length rest < length s" if a: "JSONObject (Suc n) pairs s = Inr (v, rest)"
    for pairs s v rest
    using a
  proof (cases rule: JSONObject_Suc_cases)
    case (last key s1 s2 s3 x s4 r)
    from scanstring_shorter [OF last(2)] Cons_shorter [OF last(3)]
      ih1 [OF last(4)] skip_whitespace_length [of s3] Cons_shorter [OF last(5)] last(1,6)
    show ?thesis by simp
  next
    case (more key s1 s2 s3 x s4 s5)
    from scanstring_shorter [OF more(2)] Cons_shorter [OF more(3)]
      ih1 [OF more(4)] skip_whitespace_length [of s3] Cons_shorter [OF more(5)]
      ih3 [OF more(6) [symmetric]] skip_whitespace_length [of s5] more(1)
    show ?thesis by simp
  qed simp_all
  from p1 p2 p3 show ?case by blast
qed

lemma scan_once_shorter: "scan_once n s = Inr (v, rest) \<Longrightarrow> length rest < length s"
  using consumes_aux [of n] by blast


lemma fuel_aux:
  "(\<forall>s. 2 * length s < n \<longrightarrow> scan_once n s \<noteq> Inl RecursionError) \<and>
   (\<forall>acc s. 2 * length s + 1 < n \<longrightarrow> JSONArray n acc s \<noteq> Inl RecursionError) \<and>
   (\<forall>pairs s. 2 * length s + 1 < n \<longrightarrow> JSONObject n pairs s \<noteq> Inl RecursionError)"
proof (induction n)
  case 0
  show ?case by simp
next
  case (Suc n)
  then have ih1: "\<And>s. 2 * length s < n \<Longrightarrow> scan_once n s \<noteq> Inl RecursionError"
    and ih2: "\<And>acc s. 2 * length s + 1 < n \<Longrightarrow> JSONArray n acc s \<noteq> Inl RecursionError"
    and ih3: "\<And>pairs s. 2 * length s + 1 < n \<Longrightarrow> JSONObject n pairs s \<noteq> Inl RecursionError"
    by blast+
  have p1: "scan_once (Suc n) s \<noteq> Inl RecursionError" if b: "2 * length s < Suc n" for s
  proof
    assume "scan_once (Suc n) s = Inl RecursionError"
    then show False
    proof (cases rule: scan_once_Suc_cases)
      case (str cs)
      then show ?thesis
        using scanstring_not_RecursionError [of cs] by (auto split: sum.splits)
    next
      case (obj cs t)
      have "2 * length t + 1 < n" using b obj(1,2) skip_whitespace_length [of cs] by auto
      from ih3 [OF this, of "[]"] obj(4) show ?thesis by auto
    next
      case (arr cs t)
      have "2 * length t + 1 < n" using b arr(1,2) skip_whitespace_length [of cs] by auto
      from ih2 [OF this, of "[]"] arr(4) show ?thesis by auto
    next
      case (number x)
      then show ?thesis using match_number_not_RecursionError [of s] by simp
    qed simp_all
  qed
  have p2: "JSONArray (Suc n) acc s \<noteq> Inl RecursionError" if b: "2 * length s + 1 < Suc n"
    for acc s
  proof
    assume "JSONArray (Suc n) acc s = Inl RecursionError"
    then show False
    proof (cases rule: JSONArray_Suc_cases)
      case (error e)
      have "2 * length s < n" using b by simp
      from ih1 [OF this] error show ?thesis by auto
    next
      case (more v s1 s2)
      have "length s2 < length s"
        using scan_once_shorter [OF more(1)] Cons_shorter [OF more(2)] by simp
      then have "2 * length (skip_whitespace s2) + 1 < n"
        using b skip_whitespace_length [of s2] by simp
      from ih2 [OF this, of "acc @ [v]"] more(3) show ?thesis by auto
    qed simp_all
  qed
  have p3: "JSONObject (Suc n) pairs s \<noteq> Inl RecursionError" if b: "2 * length s + 1 < Suc n"
    for pairs s
  proof
    assume "JSONObject (Suc n) pairs s = Inl RecursionError"
    then show False
    proof (cases rule: JSONObject_Suc_cases)
      case (bad e)
      then show ?thesis by simp
    next
      case (error key s1 s2 s3 e)
      have "length s3 < length s"
        using scanstring_shorter [OF error(2)] Cons_shorter [OF error(3)] error(1) by simp
      then have "2 * length (skip_whitespace s3) < n"
        using b skip_whitespace_length [of s3] by simp
      from ih1 [OF this] error(4,5) show ?thesis by auto
    next
      case (last key s1 s2 s3 v s4 rest)
      then show ?thesis by simp
    next
      case (more key s1 s2 s3 v s4 s5)
      have "length s5 < length s"
        using scanstring_shorter [OF more(2)] Cons_shorter [OF more(3)]
          scan_once_shorter [OF more(4)] skip_whitespace_length [of s3]
          Cons_shorter [OF more(5)] more(1)
        by simp
      then have "2 * length (skip_whitespace s5) + 1 < n"
        using b skip_whitespace_length [of s5] by simp
      from ih3 [OF this, of "pairs @ [(key, v)]"] more(6) show ?thesis by auto
    qed
  qed
  from p1 p2 p3 show ?case by blast
qed

lemma json_loads_not_RecursionError: "json_loads s \<noteq> Inl RecursionError"
proof -
  have "2 * length (skip_whitespace s) < 2 * length s + 2"
    using skip_whitespace_length [of s] by simp
  with fuel_aux [of "2 * length s + 2"]
  have "scan_once (2 * length s + 2) (skip_whitespace s) \<noteq> Inl RecursionError" by blast
  then show ?thesis by (auto simp: json_loads_def split: sum.splits)
qed

section \<open>The response table\<close>

lemma fold_max_ge: "(a::nat) \<le> fold max xs a \<and> (\<forall>x\<in>set xs. x \<le> fold max xs a)"
proof (induction xs arbitrary: a)
  case Nil
  show ?case by simp
next
  case (Cons y ys)
  from Cons [of "max y a"] show ?case by auto
qed

lemma new_row_id_fresh: "e \<in> set tbl \<Longrightarrow> row_id e \<noteq> new_row_id tbl"
  using fold_max_ge [of 0 "map row_id tbl"] by (fastforce simp: new_row_id_def)

lemma edges_in_response_to:
  "filter (\<lambda>r. statement r = pk self \<and> response r = pk stmt) (in_response_to self db)
     = edges (pk self) (pk stmt) db"
  by (auto simp: in_response_to_def edges_def intro: filter_cong)

lemma save_new_row:
  assumes "row_id r = new_row_id tbl"
  shows "save (r\<lparr>occurrence := n\<rparr>) (db\<lparr>Response_objects := tbl @ [r]\<rparr>)
           = db\<lparr>Response_objects := tbl @ [r\<lparr>occurrence := n\<rparr>]\<rparr>"
proof -
  have "map (\<lambda>x. if row_id x = row_id r then r\<lparr>occurrence := n\<rparr> else x) tbl = tbl"
    using new_row_id_fresh [of _ tbl] assms by (simp add: map_idI)
  then show ?thesis by (simp add: save_def)
qed

lemma add_response_new:
  assumes "edges (pk self) (pk stmt) db = []"
  shows "add_response stmt (self, db) =
           (Inr (), (self, db\<lparr>Response_objects := Response_objects db @
              [\<lparr>row_id = new_row_id (Response_objects db), statement = pk self,
                response = pk stmt, occurrence = 2\<rparr>]\<rparr>))"
proof -
  let ?r = "\<lparr>row_id = new_row_id (Response_objects db), statement = pk self,
             response = pk stmt, occurrence = 1\<rparr>"
  have g: "get_or_create self stmt db =
             (Inr (?r, True), db\<lparr>Response_objects := Response_objects db @ [?r]\<rparr>)"
    using assms by (simp add: get_or_create_def edges_in_response_to Let_def)
  have "save (?r\<lparr>occurrence := 2\<rparr>) (db\<lparr>Response_objects := Response_objects db @ [?r]\<rparr>)
          = db\<lparr>Response_objects := Response_objects db @ [?r\<lparr>occurrence := 2\<rparr>]\<rparr>"
    by (rule save_new_row) simp
  then show ?thesis by (simp add: add_response_def g numeral_2_eq_2)
qed

lemma add_response_old:
  assumes "edges (pk self) (pk stmt) db \<noteq> []"
  shows "snd (add_response stmt (self, db)) = (self, db)"
proof (cases "edges (pk self) (pk stmt) db" rule: get.cases)
  case 1
  with assms show ?thesis by simp
next
  case (2 r)
  then show ?thesis by (simp add: add_response_def get_or_create_def edges_in_response_to)
next
  case (3 r r' rs)
  then show ?thesis by (simp add: add_response_def get_or_create_def edges_in_response_to)
qed

lemma add_response_table:
  "Response_objects (snd (snd (add_response stmt (self, db)))) =
     (if edges (pk self) (pk stmt) db = []
      then Response_objects db @
             [\<lparr>row_id = new_row_id (Response_objects db), statement = pk self,
               response = pk stmt, occurrence = 2\<rparr>]
      else Response_objects db)"
  by (simp add: add_response_new add_response_old)

lemma add_response_statements:
  "Statement_objects (snd (snd (add_response stmt (self, db)))) = Statement_objects db"
  by (cases "edges (pk self) (pk stmt) db = []") (simp_all add: add_response_new add_response_old)

lemma remove_response_state: "snd (remove_response t \<sigma>) = \<sigma>"
  by (cases \<sigma>) (simp add: remove_response_def)

lemma get_response_count_state: "snd (get_response_count stmt \<sigma>) = \<sigma>"
  by (cases \<sigma>) (simp add: get_response_count_def split: sum.splits error.splits)









section \<open>\<open>strip\<close> and the decoded \<open>extra_data\<close>\<close>

lemma length_strip_le: "length (strip s) \<le> length s"
proof -
  have "length (strip s) \<le> length (rev (dropWhile isspace s))"
    using length_dropWhile_le [of isspace "rev (dropWhile isspace s)"] by (simp add: strip_def)
  also have "\<dots> \<le> length s"
    using length_dropWhile_le [of isspace s] by simp
  finally show ?thesis .
qed

lemma dropWhile_all: "(\<forall>c\<in>set (dropWhile P s). P c) \<longleftrightarrow> (\<forall>c\<in>set s. P c)"
proof
  assume a: "\<forall>c\<in>set (dropWhile P s). P c"
  have "dropWhile P s = []"
  proof (rule ccontr)
    assume n: "dropWhile P s \<noteq> []"
    then have "\<not> P (hd (dropWhile P s))" by (rule hd_dropWhile)
    moreover have "hd (dropWhile P s) \<in> set (dropWhile P s)" using n by simp
    ultimately show False using a by blast
  qed
  then show "\<forall>c\<in>set s. P c" by (simp add: dropWhile_eq_Nil_conv)
next
  assume "\<forall>c\<in>set s. P c"
  then show "\<forall>c\<in>set (dropWhile P s). P c" by (auto dest: set_dropWhileD)
qed

lemma strip_empty_iff: "strip s = [] \<longleftrightarrow> (\<forall>c\<in>set s. isspace c)"
proof -
  have "strip s = [] \<longleftrightarrow> (\<forall>c\<in>set (dropWhile isspace s). isspace c)"
    by (simp add: strip_def dropWhile_eq_Nil_conv)
  then show ?thesis by (simp add: dropWhile_all)
qed

lemma json_loads_empty_object: "json_loads ''{}'' = Inr (JObj [])"
  by code_simp



section \<open>The concrete databases\<close>



lemma one_response_tables:
  "Response_objects one_response = [\<lparr>row_id = 1, statement = 1, response = 2, occurrence = 2\<rparr>]"
  "Statement_objects one_response = [greeting, reply]"
  by (simp_all add: one_response_def add_response_table add_response_statements edges_def
      no_responses_def greeting_def reply_def new_row_id_def)

section \<open>The claims\<close>

text \<open>
  C1. \<open>remove_response(t)\<close> is claimed to remove the edge to the statement with text
  \<open>t\<close> when there is one, and to return \<open>True\<close> exactly then. The method computes the
  return value and deletes nothing: on the database with the single edge from
  \<open>Hello\<close> to \<open>Hi\<close>, \<open>remove_response('Hi')\<close> returns \<open>True\<close> and the edge is still
  in the table afterwards.
\<close>

theorem remove_response_keeps_edge:
  "remove_response ''Hi'' (greeting, one_response) = (True, (greeting, one_response))
   \<and> edges 1 2 (snd (snd (remove_response ''Hi'' (greeting, one_response))))
       = [\<lparr>row_id = 1, statement = 1, response = 2, occurrence = 2\<rparr>]"
  by (simp add: remove_response_def filter_response__text_def in_response_to_def
      response__text_def exists_rows_def one_response_tables edges_def greeting_def reply_def)

text \<open>
  C2. After \<open>n\<close> calls of \<open>add_response\<close> for one pair the count of the edge is claimed
  to be \<open>n\<close>. The method adds 1 to the count when the row was created, not when it was
  found: the count is 2 after the first call and stays 2, here after one call and
  after three.
\<close>

theorem add_response_count_stays_two:
  "map occurrence (edges 1 2 (snd (snd (add_response reply (greeting, no_responses))))) = [2]
   \<and> map occurrence (edges 1 2
        (snd (snd (add_response reply (greeting,
           snd (snd (add_response reply (greeting,
              snd (snd (add_response reply (greeting, no_responses))))))))))) = [2]"
proof -
  have one: "snd (snd (add_response reply (greeting, no_responses))) = one_response"
    by (simp add: one_response_def)
  have "edges (pk greeting) (pk reply) one_response \<noteq> []"
    by (simp add: edges_def one_response_tables greeting_def reply_def)
  then have same: "snd (snd (add_response reply (greeting, one_response))) = one_response"
    by (simp add: add_response_old)
  show ?thesis
    by (simp add: one same) (simp add: edges_def one_response_tables)
qed



text \<open>
  C4. \<open>serialize\<close> is claimed to return, for every statement, a dictionary with the
  text, the decoded \<open>extra_data\<close> and one serialized entry for each response edge. For
  a statement with a response edge the loop calls \<open>response.serialize()\<close>, a method
  that \<open>Response\<close> does not have, and the call raises \<open>AttributeError\<close>; without an
  edge the dictionary is returned.
\<close>

theorem serialize_raises_with_a_response:
  "fst (serialize (greeting, one_response)) = Inl AttributeError
   \<and> fst (serialize (greeting, no_responses))
       = Inr [(''text'', JStr ''Hello''), (''in_response_to'', JArr []), (''extra_data'', JObj [])]"
  by (simp add: serialize_def greeting_def json_loads_empty_object in_response_to_def
      one_response_tables no_responses_def Response_serialize_def)





text \<open>
  C7. After \<open>self.add_response(statement)\<close> the response list of \<open>self\<close> holds an edge
  from \<open>self\<close> to \<open>statement\<close>, whether or not there was one before the call.
\<close>

theorem add_response_records_reply:
  "\<exists>e\<in>set (in_response_to self (snd (snd (add_response stmt (self, db))))).
      statement e = pk self \<and> response e = pk stmt"
proof (cases "edges (pk self) (pk stmt) db = []")
  case True
  then show ?thesis by (simp add: add_response_new in_response_to_def)
next
  case False
  then obtain e where "e \<in> set (edges (pk self) (pk stmt) db)"
    by (cases "edges (pk self) (pk stmt) db") auto
  then have "e \<in> set (in_response_to self db) \<and> statement e = pk self \<and> response e = pk stmt"
    by (simp add: edges_def in_response_to_def)
  with False show ?thesis by (auto simp: add_response_old)
qed

text \<open>
  C8. \<open>remove_response\<close> and \<open>get_response_count\<close> return the instance and the
  database as they were: the fields of \<open>self\<close>, the rows of the response table and
  their counts are unchanged.
\<close>

theorem queries_change_nothing:
  "snd (remove_response t \<sigma>) = \<sigma> \<and> snd (get_response_count stmt \<sigma>) = \<sigma>"
  by (simp add: remove_response_state get_response_count_state)



text \<open>
  C10. The claim: the string of a statement has at most 60 characters, ends with
  \<open>...\<close> exactly when the stripped text is longer than 60 characters, and is
  \<open><empty>\<close> exactly when the text is empty or white space. It fails three times: a
  text of 60 letters and a space is returned whole, with its 61 characters; the text
  \<open>Wait...\<close> is returned as it is, and ends with \<open>...\<close>; the text \<open><empty>\<close> is
  returned as it is.
\<close>

theorem Statement_str_counterexample:
  "\<not> length (Statement_str \<lparr>pk = 1, text = replicate 60 (CHR ''a'') @ '' '', extra_data = ''''\<rparr>)
       \<le> 60
   \<and> Statement_str \<lparr>pk = 1, text = ''Wait...'', extra_data = ''''\<rparr> = ''Wait...''
   \<and> \<not> 60 < length (strip ''Wait...'')
   \<and> Statement_str \<lparr>pk = 1, text = ''<empty>'', extra_data = ''''\<rparr> = ''<empty>''
   \<and> strip ''<empty>'' \<noteq> []"
  by (simp add: Statement_str_def strip_def isspace_def)

text \<open>
  C10, amended. When the stripped text is longer than 60 characters, the string is the
  first 57 characters of the text followed by \<open>...\<close>, 60 characters in all; when the
  stripped text has 1 to 60 characters, it is the text, unchanged; when the text is
  empty or white space, it is \<open><empty>\<close>. So it has at most 60 characters when the
  text has at most 60 or the stripped text more than 60; it ends with \<open>...\<close> exactly
  when the stripped text is longer than 60 characters or the text ends with \<open>...\<close>;
  and it is \<open><empty>\<close> exactly when the text is empty, white space, or \<open><empty>\<close>.
\<close>

theorem Statement_str_cases:
  "(60 < length (strip (text self)) \<longrightarrow>
      Statement_str self = take 57 (text self) @ ''...'' \<and> length (Statement_str self) = 60)
   \<and> (0 < length (strip (text self)) \<and> length (strip (text self)) \<le> 60 \<longrightarrow>
      Statement_str self = text self)
   \<and> ((\<forall>c\<in>set (text self). isspace c) \<longrightarrow> Statement_str self = ''<empty>'')
   \<and> (length (text self) \<le> 60 \<or> 60 < length (strip (text self)) \<longrightarrow>
      length (Statement_str self) \<le> 60)
   \<and> ((\<exists>p. Statement_str self = p @ ''...'') \<longleftrightarrow>
      60 < length (strip (text self)) \<or> (\<exists>p. text self = p @ ''...''))
   \<and> (Statement_str self = ''<empty>'' \<longleftrightarrow>
      (\<forall>c\<in>set (text self). isspace c) \<or> text self = ''<empty>'')"
proof -
  let ?t = "text self"
  have le: "length (strip ?t) \<le> length ?t" by (rule length_strip_le)
  have blank: "(\<forall>c\<in>set ?t. isspace c) \<longleftrightarrow> length (strip ?t) = 0"
    using strip_empty_iff [of ?t] by simp
  have dot: "\<not> isspace (CHR ''.'')" by (simp add: isspace_def)
  have nodots: "''<empty>'' \<noteq> p @ ''...''" for p :: string
  proof
    assume "''<empty>'' = p @ ''...''"
    then have "last ''<empty>'' = last (p @ ''...'')" by simp
    then show False by simp
  qed
  consider (long) "60 < length (strip ?t)"
    | (short) "0 < length (strip ?t)" "length (strip ?t) \<le> 60"
    | (empty) "length (strip ?t) = 0"
    by linarith
  then show ?thesis
  proof cases
    case long
    then have s: "Statement_str self = take 57 ?t @ ''...''" by (simp add: Statement_str_def)
    have l: "length (Statement_str self) = 60" using long le by (simp add: s)
    have "Statement_str self \<noteq> ''<empty>''" using l by auto
    moreover have "\<not> (\<forall>c\<in>set ?t. isspace c)" using long blank by auto
    moreover have "?t \<noteq> ''<empty>''" using long le by auto
    ultimately show ?thesis using long s l by auto
  next
    case short
    then have s: "Statement_str self = ?t" by (simp add: Statement_str_def)
    have "\<not> (\<forall>c\<in>set ?t. isspace c)" using short blank by auto
    then show ?thesis using short s by auto
  next
    case empty
    then have s: "Statement_str self = ''<empty>''" by (simp add: Statement_str_def)
    have b: "\<forall>c\<in>set ?t. isspace c" using empty blank by simp
    have "?t \<noteq> p @ ''...''" for p
    proof
      assume "?t = p @ ''...''"
      then have "CHR ''.'' \<in> set ?t" by simp
      with b dot show False by blast
    qed
    then show ?thesis using empty s b nodots by auto
  qed
qed

theorem Statement_str_cases_witness:
  "60 < length (strip (replicate 61 (CHR ''a'')))
   \<and> Statement_str \<lparr>pk = 1, text = replicate 61 (CHR ''a''), extra_data = ''''\<rparr>
       = replicate 57 (CHR ''a'') @ ''...''
   \<and> 0 < length (strip ''Hello'') \<and> length (strip ''Hello'') \<le> 60
   \<and> Statement_str greeting = ''Hello''
   \<and> list_all isspace ''  ''
   \<and> Statement_str \<lparr>pk = 1, text = ''  '', extra_data = ''''\<rparr> = ''<empty>''"
proof -
  have a: "60 < length (strip (replicate 61 (CHR ''a'')))"
    by (simp add: strip_def isspace_def)
  have b: "0 < length (strip ''Hello'') \<and> length (strip ''Hello'') \<le> 60"
    by (simp add: strip_def isspace_def)
  have c: "list_all isspace ''  ''" by (simp add: isspace_def)
  from a Statement_str_cases [of "\<lparr>pk = 1, text = replicate 61 (CHR ''a''), extra_data = ''''\<rparr>"]
  have "Statement_str \<lparr>pk = 1, text = replicate 61 (CHR ''a''), extra_data = ''''\<rparr>
       = replicate 57 (CHR ''a'') @ ''...''" by simp
  moreover from b Statement_str_cases [of greeting]
  have "Statement_str greeting = ''Hello''" by (simp add: greeting_def)
  moreover from c Statement_str_cases [of "\<lparr>pk = 1, text = ''  '', extra_data = ''''\<rparr>"]
  have "Statement_str \<lparr>pk = 1, text = ''  '', extra_data = ''''\<rparr> = ''<empty>''"
    by (simp add: list_all_iff)
  ultimately show ?thesis using a b c by simp
qed


end
